theory Spec2Isabelle
  imports Main "HOL-Library.Word" "HOL-Library.Signed_Division"
begin

unbundle bit_operations_syntax

section \<open>Hexagon-1 solver: the packed puzzle state (Puzzle.h, Puzzle.cpp)\<close>

text \<open>
  A \<open>Row\<close> is C++'s \<open>__uint128_t\<close>: a 128-bit word. Turn amounts are C++ \<open>int\<close>
  values and encoded moves are \<open>int_fast32_t\<close> values; both are modelled as \<open>int\<close>.
  No arithmetic of the functions below leaves the 32-bit range on an argument that is
  in it (the largest intermediate value is \<open>turns % 18 + 18\<close>), so no wrap-around is
  written out there; the one narrowing conversion, in \<open>encodeMove\<close>, is written out.
  C++'s \<open>%\<close> truncates towards zero: it is \<open>smod\<close>, not HOL's \<open>mod\<close>.
\<close>

type_synonym Row = "128 word"

subsection \<open>Constants of Puzzle.h\<close>

definition SLOT_SIZE :: int where
  "SLOT_SIZE = 6"

definition SLOTS_PER_ROW :: int where
  "SLOTS_PER_ROW = 18"

definition SLOTS_PER_HALF :: int where
  "SLOTS_PER_HALF = SLOTS_PER_ROW sdiv 2"

definition ROW_BITS :: int where
  "ROW_BITS = SLOTS_PER_ROW * SLOT_SIZE"

definition TOTAL_BITS :: int where
  "TOTAL_BITS = 128"

definition HALF_BITS :: int where
  "HALF_BITS = (SLOTS_PER_ROW sdiv 2) * SLOT_SIZE"

definition ROW_MASK :: Row where
  "ROW_MASK = push_bit (nat ROW_BITS) 1 - 1"

definition SOLVED_TOP :: Row where
  "SOLVED_TOP = push_bit 64 0x000000510834C415 OR 0x51875C825928B6CC"

definition SOLVED_BOTTOM :: Row where
  "SOLVED_BOTTOM = push_bit 64 0x000009a5d648f38a OR 0x1c6cafbaa9e689f7"

definition HALF_MASK :: Row where
  "HALF_MASK = push_bit (nat (ROW_BITS - HALF_BITS)) (push_bit (nat HALF_BITS) 1 - 1)"

definition TOP_CUBE_SHAPE :: Row where
  "TOP_CUBE_SHAPE = push_bit 64 0x0000000004000100 OR 0x0040001000040001"

definition BOTTOM_CUBE_SHAPE :: Row where
  "BOTTOM_CUBE_SHAPE = push_bit 64 0x0000004000100004 OR 0x0001000040001000"

definition SLICE_MASK :: Row where
  "SLICE_MASK = push_bit 64 0x0000040000000000 OR 0x0010000000000000"

definition ROW_ORIENTATION_MASK :: Row where
  "ROW_ORIENTATION_MASK = push_bit 64 0x0000082082082082 OR 0x0820820820820820"

subsection \<open>Turn amounts and encoded moves\<close>

definition wrapPositive :: "int \<Rightarrow> int" where
  "wrapPositive turns = (turns smod SLOTS_PER_ROW + SLOTS_PER_ROW) smod SLOTS_PER_ROW"

definition wrapNegative :: "int \<Rightarrow> int" where
  "wrapNegative turns =
     (wrapPositive turns + SLOTS_PER_HALF - 1) smod SLOTS_PER_ROW - (SLOTS_PER_HALF - 1)"

text \<open>
  \<open><<\<close> and \<open>>>\<close> on a signed value: \<open>push_bit\<close> and \<open>drop_bit\<close> on \<open>int\<close>
  (multiplication by a power of two, and the arithmetic shift).
\<close>

text \<open>
  \<open>encodeMove\<close> takes \<open>int_fast32_t\<close> arguments and hands them to \<open>wrapPositive\<close>,
  which takes an \<open>int\<close>: the conversion keeps the low 32 bits, read in two's
  complement.
\<close>

definition narrow_int :: "int \<Rightarrow> int" where
  "narrow_int x = signed_take_bit 31 x"

definition encodeMove :: "int \<Rightarrow> int \<Rightarrow> int" where
  "encodeMove topTurns bottomTurns =
     push_bit (nat SLOT_SIZE) (wrapPositive (narrow_int topTurns)) OR
     wrapPositive (narrow_int bottomTurns)"

definition decodeMove :: "int \<Rightarrow> int \<times> int" where
  "decodeMove move =
     (drop_bit (nat SLOT_SIZE) move AND (push_bit (nat SLOT_SIZE) 1 - 1),
      move AND (push_bit (nat SLOT_SIZE) 1 - 1))"

subsection \<open>Rotating a row\<close>

text \<open>
  C++ leaves a shift undefined when its count is negative or not below the width of the
  shifted operand. The two shifts of a \<open>Row\<close> therefore return \<open>None\<close> for such a
  count; HOL's \<open>push_bit 128\<close> would silently give 0 there.
\<close>

definition shl :: "Row \<Rightarrow> int \<Rightarrow> Row option" where
  "shl x n = (if 0 \<le> n \<and> n < TOTAL_BITS then Some (push_bit (nat n) x) else None)"

definition shr :: "Row \<Rightarrow> int \<Rightarrow> Row option" where
  "shr x n = (if 0 \<le> n \<and> n < TOTAL_BITS then Some (drop_bit (nat n) x) else None)"

definition turnRow :: "Row \<Rightarrow> int \<Rightarrow> Row option" where
  "turnRow row slots =
     (if slots = 0 then Some row
      else
        let shift = wrapPositive slots * SLOT_SIZE in
        case shl row (TOTAL_BITS - shift) of
          None \<Rightarrow> None
        | Some shifted \<Rightarrow>
            (case shr shifted (TOTAL_BITS - ROW_BITS) of
               None \<Rightarrow> None
             | Some tail \<Rightarrow>
                 (case shr row shift of
                    None \<Rightarrow> None
                  | Some low \<Rightarrow> Some ((low OR tail) AND ROW_MASK))))"

text \<open>
  The compiled code does return from a shift whose count is out of range, with a value
  the language does not fix. \<open>turnRow_any\<close> is \<open>turnRow\<close> with that value supplied by
  \<open>oob\<close> (the shifted operand and the count are its arguments): it says what
  \<open>turnRow\<close> returns for each value the out-of-range shift may have, and it is
  \<open>turnRow\<close> wherever \<open>turnRow\<close> is defined.
\<close>

definition shl_any :: "(Row \<Rightarrow> int \<Rightarrow> Row) \<Rightarrow> Row \<Rightarrow> int \<Rightarrow> Row" where
  "shl_any oob x n = (case shl x n of None \<Rightarrow> oob x n | Some y \<Rightarrow> y)"

definition shr_any :: "(Row \<Rightarrow> int \<Rightarrow> Row) \<Rightarrow> Row \<Rightarrow> int \<Rightarrow> Row" where
  "shr_any oob x n = (case shr x n of None \<Rightarrow> oob x n | Some y \<Rightarrow> y)"

definition turnRow_any :: "(Row \<Rightarrow> int \<Rightarrow> Row) \<Rightarrow> Row \<Rightarrow> int \<Rightarrow> Row" where
  "turnRow_any oob row slots =
     (if slots = 0 then row
      else
        let shift = wrapPositive slots * SLOT_SIZE;
            tail = shr_any oob (shl_any oob row (TOTAL_BITS - shift)) (TOTAL_BITS - ROW_BITS);
            next = shr_any oob row shift OR tail
        in next AND ROW_MASK)"

text \<open>
  The invariant of the data model: a row uses the 108 bits of its 18 slots, and every
  bit above position 107 is zero.
\<close>

definition upper_bits_zero :: "Row \<Rightarrow> bool" where
  "upper_bits_zero r \<longleftrightarrow> drop_bit 108 r = 0"

subsection \<open>The puzzle and its operations\<close>

text \<open>
  The class \<open>Puzzle\<close> holds the two rows \<open>top\<close> and \<open>bottom\<close>. A member function
  that mutates the object takes the state and returns an outcome: \<open>Done\<close> with the
  new state on a normal return, \<open>LogicError\<close> with the state the object is left in
  when \<open>std::logic_error\<close> is thrown, and \<open>Undefined\<close> when a shift with an
  out-of-range count was executed.
\<close>

record Puzzle =
  top_row :: Row
  bottom_row :: Row

datatype outcome = Done Puzzle | LogicError Puzzle | Undefined

definition rows_clean :: "Puzzle \<Rightarrow> bool" where
  "rows_clean p \<longleftrightarrow> upper_bits_zero (top_row p) \<and> upper_bits_zero (bottom_row p)"

definition Puzzle_default :: Puzzle where
  "Puzzle_default = \<lparr>top_row = SOLVED_TOP, bottom_row = SOLVED_BOTTOM\<rparr>"

definition clone :: "Puzzle \<Rightarrow> Puzzle" where
  "clone p = \<lparr>top_row = top_row p, bottom_row = bottom_row p\<rparr>"

definition cubeShape :: "Puzzle \<Rightarrow> bool" where
  "cubeShape p \<longleftrightarrow>
     top_row p AND TOP_CUBE_SHAPE = 0 \<and> bottom_row p AND BOTTOM_CUBE_SHAPE = 0"

definition canSlice :: "Puzzle \<Rightarrow> bool" where
  "canSlice p \<longleftrightarrow> top_row p AND SLICE_MASK = 0 \<and> bottom_row p AND SLICE_MASK = 0"

definition canSliceTop :: "Puzzle \<Rightarrow> bool" where
  "canSliceTop p \<longleftrightarrow> top_row p AND SLICE_MASK = 0"

definition canSliceBottom :: "Puzzle \<Rightarrow> bool" where
  "canSliceBottom p \<longleftrightarrow> bottom_row p AND SLICE_MASK = 0"

definition isRowOrientationSolved :: "Puzzle \<Rightarrow> bool" where
  "isRowOrientationSolved p \<longleftrightarrow>
     top_row p AND ROW_ORIENTATION_MASK = 0 \<and>
     NOT (bottom_row p) AND ROW_ORIENTATION_MASK = 0"

definition isSolvedByMatches :: "Puzzle \<Rightarrow> Row \<Rightarrow> Row \<Rightarrow> Row \<Rightarrow> Row \<Rightarrow> bool" where
  "isSolvedByMatches p topMatch topMask bottomMatch bottomMask =
     (if \<not> cubeShape p then False
      else if \<not> isRowOrientationSolved p then False
      else top_row p AND topMask = topMatch AND topMask \<and>
           bottom_row p AND bottomMask = bottomMatch AND bottomMask)"

definition isSolved :: "Puzzle \<Rightarrow> bool" where
  "isSolved p \<longleftrightarrow> top_row p = SOLVED_TOP \<and> bottom_row p = SOLVED_BOTTOM"

definition turn :: "Puzzle \<Rightarrow> int \<Rightarrow> int \<Rightarrow> outcome" where
  "turn p topTurns bottomTurns =
     (case turnRow (top_row p) topTurns of
        None \<Rightarrow> Undefined
      | Some t \<Rightarrow>
          (case turnRow (bottom_row p) bottomTurns of
             None \<Rightarrow> Undefined
           | Some b \<Rightarrow> Done \<lparr>top_row = t, bottom_row = b\<rparr>))"

definition slice_puzzle :: "Puzzle \<Rightarrow> outcome" where
  "slice_puzzle p =
     (if \<not> canSlice p then LogicError p
      else
        let topHalf = top_row p AND HALF_MASK;
            bottomHalf = bottom_row p AND HALF_MASK
        in Done \<lparr>top_row = top_row p AND NOT HALF_MASK OR bottomHalf,
                 bottom_row = bottom_row p AND NOT HALF_MASK OR topHalf\<rparr>)"

definition move :: "Puzzle \<Rightarrow> int \<Rightarrow> int \<Rightarrow> outcome" where
  "move p topTurns bottomTurns =
     (case turn p topTurns bottomTurns of
        Done turned \<Rightarrow> slice_puzzle turned
      | LogicError q \<Rightarrow> LogicError q
      | Undefined \<Rightarrow> Undefined)"

text \<open>The overload of \<open>move\<close> that records the move in the caller's list.\<close>

definition move_logged :: "Puzzle \<Rightarrow> int list \<Rightarrow> int \<Rightarrow> int \<Rightarrow> outcome \<times> int list" where
  "move_logged p moves topTurns bottomTurns =
     (case move p topTurns bottomTurns of
        Done q \<Rightarrow> (Done q, moves @ [encodeMove topTurns bottomTurns])
      | LogicError q \<Rightarrow> (LogicError q, moves)
      | Undefined \<Rightarrow> (Undefined, moves))"

text \<open>
  \<open>turn\<close> and \<open>move\<close> for each value the out-of-range shift may have: \<open>turn\<close> always
  returns then, and \<open>move\<close> returns or throws as its \<open>slice\<close> does.
\<close>

definition turn_any :: "(Row \<Rightarrow> int \<Rightarrow> Row) \<Rightarrow> Puzzle \<Rightarrow> int \<Rightarrow> int \<Rightarrow> Puzzle" where
  "turn_any oob p topTurns bottomTurns =
     \<lparr>top_row = turnRow_any oob (top_row p) topTurns,
      bottom_row = turnRow_any oob (bottom_row p) bottomTurns\<rparr>"

definition move_any :: "(Row \<Rightarrow> int \<Rightarrow> Row) \<Rightarrow> Puzzle \<Rightarrow> int \<Rightarrow> int \<Rightarrow> outcome" where
  "move_any oob p topTurns bottomTurns = slice_puzzle (turn_any oob p topTurns bottomTurns)"

section \<open>The solver (main.cpp)\<close>

definition MOVES :: "int list" where
  "MOVES = [0, 3, 15, 6, 12, 9, 1, 17, 2]"

subsection \<open>formatMoves: the first loop\<close>

text \<open>
  \<open>moves[j]\<close> on a \<open>std::vector\<close> is undefined out of range: \<open>None\<close>.
\<close>

definition at_index :: "int list \<Rightarrow> int \<Rightarrow> int option" where
  "at_index xs j = (if 0 \<le> j \<and> j < int (length xs) then Some (xs ! nat j) else None)"

text \<open>
  The loop of \<open>formatMoves\<close> that fills \<open>ignoreZeroes\<close>, as a function of the loop
  variables \<open>i\<close>, \<open>sliceParity\<close> and \<open>ignoreZeroes\<close>; the result is the list when
  the loop is left.
\<close>

function ignoreZeroes_loop :: "int list \<Rightarrow> nat \<Rightarrow> int \<Rightarrow> int list \<Rightarrow> int list option" where
  "ignoreZeroes_loop moves i sliceParity ignoreZeroes =
     (if \<not> i \<le> length moves then Some ignoreZeroes
      else if i = length moves then
        (if sliceParity smod 2 = 1 then
           (case at_index moves (int i - 1) of
              None \<Rightarrow> None
            | Some prev \<Rightarrow> Some (ignoreZeroes @ [prev]))
         else Some ignoreZeroes)
      else
        (case at_index moves (int i) of
           None \<Rightarrow> None
         | Some cur \<Rightarrow>
             if cur = 0 then ignoreZeroes_loop moves (i + 1) (sliceParity + 1) ignoreZeroes
             else if sliceParity smod 2 = 1 then
               (case at_index moves (int i - 1) of
                  None \<Rightarrow> None
                | Some prev \<Rightarrow> ignoreZeroes_loop moves (i + 1) 0 (ignoreZeroes @ [prev] @ [cur]))
             else ignoreZeroes_loop moves (i + 1) 0 (ignoreZeroes @ [cur])))"
  by pat_completeness auto
termination
  by (relation "measure (\<lambda>(moves, i, sliceParity, ignoreZeroes). Suc (length moves) - i)") auto

definition formatMoves_ignoreZeroes :: "int list \<Rightarrow> int list option" where
  "formatMoves_ignoreZeroes moves = ignoreZeroes_loop moves 0 0 []"

text \<open>
  What the loop computes, by recursion on the list: \<open>k\<close> counts the no-op entries
  since the last real move. A run of no-ops of odd length leaves one no-op entry, a run
  of even length leaves nothing, and every real move is kept.
\<close>

fun zero_runs :: "nat \<Rightarrow> int list \<Rightarrow> int list" where
  "zero_runs k [] = (if odd k then [0] else [])"
| "zero_runs k (m # ms) =
     (if m = 0 then zero_runs (Suc k) ms
      else (if odd k then [0] else []) @ m # zero_runs 0 ms)"

text \<open>
  The same pass as the specification words it, for comparison with the loop: after a run
  of no-ops of odd length the prior real move \<open>prior\<close> is emitted once more (nothing
  when there is no prior real move, a case the specification leaves open).
\<close>

fun reemit_prior_real_move :: "int option \<Rightarrow> nat \<Rightarrow> int list \<Rightarrow> int list" where
  "reemit_prior_real_move prior k [] =
     (if odd k then (case prior of None \<Rightarrow> [] | Some r \<Rightarrow> [r]) else [])"
| "reemit_prior_real_move prior k (m # ms) =
     (if m = 0 then reemit_prior_real_move prior (Suc k) ms
      else (if odd k then (case prior of None \<Rightarrow> [] | Some r \<Rightarrow> [r]) else []) @
           m # reemit_prior_real_move (Some m) 0 ms)"

subsection \<open>The search\<close>

text \<open>
  What a run of the search does: it returns to its caller (\<open>Returned\<close>), or
  \<open>checkSolved\<close> prints \<open>formatMoves(moves, endsOnSlice)\<close> and ends the process with
  \<open>std::exit(0)\<close> (\<open>Exited moves endsOnSlice\<close>), or the \<open>std::logic_error\<close> of
  \<open>slice\<close> leaves it (\<open>Crashed\<close>), or an undefined shift was executed
  (\<open>UndefinedRun\<close>).
\<close>

datatype run = Returned | Exited "int list" bool | Crashed | UndefinedRun

definition checkSolved :: "Puzzle \<Rightarrow> int list \<Rightarrow> bool \<Rightarrow> run" where
  "checkSolved puzzle moves endsOnSlice =
     (if cubeShape puzzle \<and> isRowOrientationSolved puzzle then Exited moves endsOnSlice
      else Returned)"

text \<open>A run in which no exception is thrown and no undefined shift is executed.\<close>

definition harmless :: "run \<Rightarrow> bool" where
  "harmless r \<longleftrightarrow> r \<noteq> Crashed \<and> r \<noteq> UndefinedRun"

text \<open>
  A \<open>for\<close> loop over the entries of \<open>MOVES\<close>: the next iteration starts when the
  body came to its end or to \<open>continue\<close> (\<open>Returned\<close>); anything else ends the loop.
\<close>

fun for_each :: "int list \<Rightarrow> (int \<Rightarrow> run) \<Rightarrow> run" where
  "for_each [] body = Returned"
| "for_each (m # ms) body =
     (case body m of
        Returned \<Rightarrow> for_each ms body
      | Exited moves endsOnSlice \<Rightarrow> Exited moves endsOnSlice
      | Crashed \<Rightarrow> Crashed
      | UndefinedRun \<Rightarrow> UndefinedRun)"

function solve :: "Puzzle \<Rightarrow> int list \<Rightarrow> int \<Rightarrow> run" where
  "solve puzzle moves depth =
     (if depth > 8 then Returned
      else
        for_each MOVES (\<lambda>a.
          case turn (clone puzzle) a 0 of
            Undefined \<Rightarrow> UndefinedRun
          | LogicError q \<Rightarrow> Crashed
          | Done topNext \<Rightarrow>
              if \<not> canSliceTop topNext then Returned
              else
                for_each MOVES (\<lambda>b.
                  case turn (clone topNext) 0 b of
                    Undefined \<Rightarrow> UndefinedRun
                  | LogicError q \<Rightarrow> Crashed
                  | Done bottomNext \<Rightarrow>
                      if \<not> canSliceBottom bottomNext then Returned
                      else
                        let nextMoves = moves @ [encodeMove a b] in
                        (case checkSolved bottomNext nextMoves False of
                           Returned \<Rightarrow>
                             (case slice_puzzle bottomNext of
                                Undefined \<Rightarrow> UndefinedRun
                              | LogicError q \<Rightarrow> Crashed
                              | Done sliced \<Rightarrow>
                                  (case checkSolved sliced nextMoves True of
                                     Returned \<Rightarrow> solve sliced nextMoves (depth + 1)
                                   | Exited ms e \<Rightarrow> Exited ms e
                                   | Crashed \<Rightarrow> Crashed
                                   | UndefinedRun \<Rightarrow> UndefinedRun))
                         | Exited ms e \<Rightarrow> Exited ms e
                         | Crashed \<Rightarrow> Crashed
                         | UndefinedRun \<Rightarrow> UndefinedRun))))"
  by pat_completeness auto
termination
  by (relation "measure (\<lambda>(puzzle, moves, depth). nat (9 - depth))") auto

declare solve.simps [simp del]

text \<open>
  \<open>solveMultithread\<close> starts one task per entry of \<open>MOVES\<close> whose top turn passes
  \<open>canSliceTop\<close>. A task captures \<open>topNext\<close>, \<open>a\<close> and \<open>baseMoves\<close> by value and
  shares no puzzle with another task, so what it does is a function of these three:
  \<open>solve_task\<close> is the body of the lambda. \<open>solveMultithread\<close> is modelled by the
  list of what each started task does when it runs to its end; the order in which the
  tasks are scheduled is not modelled.
\<close>

definition solve_task :: "Puzzle \<Rightarrow> int \<Rightarrow> int list \<Rightarrow> run" where
  "solve_task topNext a baseMoves =
     for_each MOVES (\<lambda>b.
       case turn (clone topNext) 0 b of
         Undefined \<Rightarrow> UndefinedRun
       | LogicError q \<Rightarrow> Crashed
       | Done bottomNext \<Rightarrow>
           if \<not> canSliceBottom bottomNext then Returned
           else
             let nextMoves = baseMoves @ [encodeMove a b] in
             (case checkSolved bottomNext nextMoves False of
                Returned \<Rightarrow>
                  (case slice_puzzle bottomNext of
                     Undefined \<Rightarrow> UndefinedRun
                   | LogicError q \<Rightarrow> Crashed
                   | Done sliced \<Rightarrow>
                       (case checkSolved sliced nextMoves True of
                          Returned \<Rightarrow> solve sliced nextMoves 1
                        | Exited ms e \<Rightarrow> Exited ms e
                        | Crashed \<Rightarrow> Crashed
                        | UndefinedRun \<Rightarrow> UndefinedRun))
              | Exited ms e \<Rightarrow> Exited ms e
              | Crashed \<Rightarrow> Crashed
              | UndefinedRun \<Rightarrow> UndefinedRun))"

fun start_tasks :: "Puzzle \<Rightarrow> int list \<Rightarrow> int list \<Rightarrow> run list" where
  "start_tasks start baseMoves [] = []"
| "start_tasks start baseMoves (a # rest) =
     (case turn (clone start) a 0 of
        Undefined \<Rightarrow> [UndefinedRun]
      | LogicError q \<Rightarrow> [Crashed]
      | Done topNext \<Rightarrow>
          if \<not> canSliceTop topNext then start_tasks start baseMoves rest
          else solve_task topNext a baseMoves # start_tasks start baseMoves rest)"

definition solveMultithread :: "Puzzle \<Rightarrow> int list \<Rightarrow> run list" where
  "solveMultithread start baseMoves = start_tasks start baseMoves MOVES"

section \<open>Turn amounts: wrapPositive and wrapNegative\<close>

lemma smod_18:
  "(n::int) smod 18 = (if n < 0 \<and> n mod 18 \<noteq> 0 then n mod 18 - 18 else n mod 18)"
  by (simp add: signed_modulo_int_eq_modulo_int sgn_if dvd_eq_mod_eq_0)

lemma wrapPositive_mod: "wrapPositive n = n mod 18"
proof -
  have "0 \<le> n mod 18" "n mod 18 < 18"
    by simp_all
  then show ?thesis
    unfolding wrapPositive_def SLOTS_PER_ROW_def smod_18
    by (auto simp: mod_simps)
qed

lemma wrapNegative_mod: "wrapNegative n = (n mod 18 + 8) mod 18 - 8"
proof -
  have "0 \<le> n mod 18" "n mod 18 < 18"
    by simp_all
  then show ?thesis
    unfolding wrapNegative_def wrapPositive_mod SLOTS_PER_ROW_def SLOTS_PER_HALF_def smod_18
    by (simp add: signed_divide_int_def add.commute)
qed

text \<open>
  C6: \<open>wrapNegative n\<close> is to lie in the half-open range \<open>(-8, 9]\<close>, as the comment on
  its declaration in Puzzle.h says too, and to have period 18. The code departs from
  the range at the turns of 10 slots (modulo 18): it re-expresses them as \<open>-8\<close>, the
  excluded lower end.
\<close>

theorem wrapNegative_10_outside_documented_range:
  "wrapNegative 10 = - 8 \<and> \<not> (- 8 < wrapNegative 10 \<and> wrapNegative 10 \<le> 9)"
  by (simp add: wrapNegative_mod)

text \<open>
  What the code does return: a value in the closed range \<open>[-8, 9]\<close>, with period 18.
\<close>

lemma wrapNegative_closed_range:
  "- 8 \<le> wrapNegative n \<and> wrapNegative n \<le> 9 \<and> wrapNegative (n + 18) = wrapNegative n"
proof -
  have "0 \<le> (n mod 18 + 8) mod 18" "(n mod 18 + 8) mod 18 < 18"
    by simp_all
  then show ?thesis
    by (simp add: wrapNegative_mod)
qed

section \<open>Encoded moves\<close>

lemma slot_mask_int: "push_bit (nat SLOT_SIZE) 1 - 1 = (mask 6 :: int)"
  by (simp add: SLOT_SIZE_def mask_eq_exp_minus_1)

text \<open>
  C8: for turn amounts already in \<open>[0, 18)\<close>, decoding an encoded move gives the two
  amounts back.
\<close>

theorem decodeMove_encodeMove:
  assumes "0 \<le> topTurns" "topTurns < 18" "0 \<le> bottomTurns" "bottomTurns < 18"
  shows "decodeMove (encodeMove topTurns bottomTurns) = (topTurns, bottomTurns)"
proof -
  have wt: "wrapPositive (narrow_int topTurns) = topTurns"
    and wb: "wrapPositive (narrow_int bottomTurns) = bottomTurns"
    using assms by (simp_all add: wrapPositive_mod narrow_int_def signed_take_bit_int_eq_self)
  have tb: "take_bit 6 bottomTurns = bottomTurns"
    using assms by (simp add: take_bit_int_eq_self)
  have tt: "take_bit 6 topTurns = topTurns"
    using assms by (simp add: take_bit_int_eq_self)
  have db: "drop_bit 6 bottomTurns = 0"
    using assms by (simp add: drop_bit_eq_div)
  have hi: "drop_bit 6 (push_bit 6 topTurns OR bottomTurns) AND mask 6 = topTurns"
    by (simp add: drop_bit_push_bit db take_bit_eq_mask [symmetric] tt)
  have lo: "(push_bit 6 topTurns OR bottomTurns) AND mask 6 = bottomTurns"
    by (simp add: take_bit_eq_mask [symmetric] take_bit_push_bit tb)
  show ?thesis
    unfolding decodeMove_def encodeMove_def slot_mask_int wt wb
    using hi lo by (simp add: SLOT_SIZE_def)
qed

theorem decodeMove_encodeMove_witness:
  "(0::int) \<le> 17 \<and> (17::int) < 18 \<and> (0::int) \<le> 4 \<and> (4::int) < 18 \<and>
   decodeMove (encodeMove 17 4) = (17, 4)"
  using decodeMove_encodeMove [of 17 4] by simp

section \<open>Rotating a row\<close>

lemma ROW_MASK_mask: "ROW_MASK = mask 108"
  by (simp add: ROW_MASK_def ROW_BITS_def SLOTS_PER_ROW_def SLOT_SIZE_def mask_eq_exp_minus_1)

lemma upper_bits_zero_iff: "upper_bits_zero r \<longleftrightarrow> r AND ROW_MASK = r"
  unfolding upper_bits_zero_def ROW_MASK_mask
  by (metis take_bit_eq_mask take_bit_eq_self_iff_drop_bit_eq_0)

lemma upper_bits_zero_solved: "upper_bits_zero SOLVED_TOP" "upper_bits_zero SOLVED_BOTTOM"
  by (simp_all add: upper_bits_zero_def SOLVED_TOP_def SOLVED_BOTTOM_def)

lemma upper_bits_zero_bit:
  assumes "upper_bits_zero row" "bit row k"
  shows "k < 108"
proof (rule ccontr)
  assume "\<not> k < 108"
  with assms(2) have "bit (drop_bit 108 row) (k - 108)"
    by (simp add: bit_drop_bit_eq)
  with assms(1) show False
    by (simp add: upper_bits_zero_def)
qed

lemma turnRow_zero: "turnRow row 0 = Some row"
  by (simp add: turnRow_def)

text \<open>
  For a turn amount that is not a multiple of 18 both shift counts are in range, and
  the row is rotated.
\<close>

lemma turnRow_defined:
  assumes "slots mod 18 \<noteq> 0"
  shows "turnRow row slots =
    Some ((drop_bit (nat (slots mod 18 * 6)) row OR
           drop_bit 20 (push_bit (nat (128 - slots mod 18 * 6)) row)) AND ROW_MASK)"
proof -
  have "0 \<le> slots mod 18" "slots mod 18 < 18"
    by simp_all
  with assms have "0 < slots mod 18 * 6" "slots mod 18 * 6 < 128"
    by auto
  moreover have "slots \<noteq> 0"
    using assms by auto
  ultimately show ?thesis
    by (simp add: turnRow_def wrapPositive_mod shl_def shr_def TOTAL_BITS_def SLOT_SIZE_def
        ROW_BITS_def SLOTS_PER_ROW_def Let_def)
qed

text \<open>
  The guard of \<open>turnRow\<close> tests \<open>slots\<close>, not \<open>wrapPositive slots\<close>: a nonzero multiple
  of 18 passes it with \<open>shift = 0\<close>, and the left shift by \<open>TOTAL_BITS - shift = 128\<close>
  is undefined.
\<close>

lemma turnRow_undefined:
  assumes "slots \<noteq> 0" "slots mod 18 = 0"
  shows "turnRow row slots = None"
  using assms by (simp add: turnRow_def wrapPositive_mod shl_def TOTAL_BITS_def)

lemma turnRow_Some_iff:
  "(\<exists>r. turnRow row slots = Some r) \<longleftrightarrow> slots = 0 \<or> slots mod 18 \<noteq> 0"
  using turnRow_zero [of row] turnRow_defined [of slots row] turnRow_undefined [of slots row]
  by (cases "slots = 0"; cases "slots mod 18 = 0") auto

lemma turnRow_clean:
  assumes "upper_bits_zero row" "turnRow row slots = Some r"
  shows "upper_bits_zero r"
proof (cases "slots = 0")
  case True
  with assms show ?thesis
    by (simp add: turnRow_zero)
next
  case False
  with assms(2) have "slots mod 18 \<noteq> 0"
    using turnRow_undefined [of slots row] by auto
  from turnRow_defined [OF this, of row] assms(2) show ?thesis
    by (auto simp: upper_bits_zero_iff and.assoc)
qed

text \<open>
  C1: on rows that are zero above bit 107, \<open>turnRow\<close> is to be an action of the
  integers modulo 18: two turns in a row are the turn by the sum, and the turn by 0
  changes nothing. The code departs from this at the nonzero multiples of 18. Turning
  the solved top row by 9 slots and by 9 slots again is defined and gives the row back,
  while turning it by \<open>9 + 9\<close> slots is undefined.
\<close>

theorem turnRow_18_undefined:
  "upper_bits_zero SOLVED_TOP \<and>
   (case turnRow SOLVED_TOP 9 of None \<Rightarrow> None | Some r \<Rightarrow> turnRow r 9) = Some SOLVED_TOP \<and>
   turnRow SOLVED_TOP (9 + 9) = None"
proof -
  have half: "turnRow SOLVED_TOP 9 = Some 37326549753703850124520811681094"
    by (simp add: turnRow_defined SOLVED_TOP_def ROW_MASK_def ROW_BITS_def SLOTS_PER_ROW_def
        SLOT_SIZE_def)
  have return: "turnRow 37326549753703850124520811681094 9 = Some SOLVED_TOP"
    by (simp add: turnRow_defined SOLVED_TOP_def ROW_MASK_def ROW_BITS_def SLOTS_PER_ROW_def
        SLOT_SIZE_def)
  have full: "turnRow SOLVED_TOP (9 + 9) = None"
    by (simp add: turnRow_undefined)
  from half return full upper_bits_zero_solved(1) show ?thesis
    by simp
qed

subsection \<open>The rotation law where turnRow is defined\<close>

lemma slot_index: "(int n + 6 * slots) mod 108 = (int n + 6 * (slots mod 18)) mod 108"
proof -
  have "6 * (slots mod 18) = (6 * slots) mod 108"
    by (simp add: mult_mod_right)
  then show ?thesis
    by (simp add: mod_simps)
qed

text \<open>Bit \<open>n\<close> of the turned row is bit \<open>n + 6 * slots\<close> of the row, modulo 108.\<close>

lemma bit_turnRow:
  assumes u: "upper_bits_zero row" and t: "turnRow row slots = Some r"
  shows "bit r n \<longleftrightarrow> n < 108 \<and> bit row (nat ((int n + 6 * slots) mod 108))"
proof (cases "slots = 0")
  case True
  with t have "r = row"
    by (simp add: turnRow_zero)
  with True u show ?thesis
    by (auto dest: upper_bits_zero_bit)
next
  case False
  with t have nz: "slots mod 18 \<noteq> 0"
    using turnRow_undefined [of slots row] by auto
  define k where "k = nat (slots mod 18)"
  have k: "0 < k" "k < 18" "slots mod 18 = int k"
    using nz by (simp_all add: k_def)
  have s: "nat (slots mod 18 * 6) = 6 * k" "nat (128 - slots mod 18 * 6) = 128 - 6 * k"
    using k by simp_all
  have r: "r = (drop_bit (6 * k) row OR drop_bit 20 (push_bit (128 - 6 * k) row)) AND mask 108"
    using turnRow_defined [OF nz, of row] t by (simp add: s ROW_MASK_mask)
  have "(int n + 6 * int k) mod 108 = int ((n + 6 * k) mod 108)"
    by (simp add: zmod_int)
  then have idx: "nat ((int n + 6 * slots) mod 108) = (n + 6 * k) mod 108"
    by (simp add: slot_index [of n slots] k)
  show ?thesis
  proof (cases "n < 108")
    case False
    then show ?thesis
      by (simp add: r bit_simps)
  next
    case True
    show ?thesis
    proof (cases "n + 6 * k < 108")
      case low: True
      then have "\<not> 128 - 6 * k \<le> n + 20"
        using k by simp
      with True low show ?thesis
        by (simp add: r idx bit_simps add.commute)
    next
      case high: False
      then have "\<not> bit row (n + 6 * k)"
        using upper_bits_zero_bit [OF u] by blast
      moreover have "(n + 6 * k) mod 108 = n + 6 * k - 108"
        using high True k by (simp add: mod_if)
      moreover have "n + 20 - (128 - 6 * k) = n + 6 * k - 108" "128 - 6 * k \<le> n + 20"
        using high True k by simp_all
      ultimately show ?thesis
        using True by (simp add: r idx bit_simps add.commute)
    qed
  qed
qed

lemma turnRow_compose:
  assumes u: "upper_bits_zero row"
    and a: "turnRow row a = Some r1" and b: "turnRow r1 b = Some r2"
    and ab: "turnRow row (a + b) = Some r3"
  shows "r2 = r3"
proof (rule bit_eqI)
  fix n
  have u1: "upper_bits_zero r1"
    using u a by (rule turnRow_clean)
  have "int (nat ((int n + 6 * b) mod 108)) = (int n + 6 * b) mod 108"
    by simp
  then have "(int (nat ((int n + 6 * b) mod 108)) + 6 * a) mod 108 =
      (int n + 6 * (a + b)) mod 108"
    by (simp add: mod_simps algebra_simps)
  moreover have "nat ((int n + 6 * b) mod 108) < 108"
    by (simp add: nat_less_iff)
  ultimately show "bit r2 n \<longleftrightarrow> bit r3 n"
    by (simp add: bit_turnRow [OF u1 b] bit_turnRow [OF u a] bit_turnRow [OF u ab])
qed

text \<open>
  Away from the nonzero multiples of 18, \<open>turnRow\<close> is the action the specification
  describes: two turns in a row are the turn by the sum.
\<close>

lemma turnRow_action_where_defined:
  assumes "upper_bits_zero row"
    and "a = 0 \<or> a mod 18 \<noteq> 0" "b = 0 \<or> b mod 18 \<noteq> 0"
    and "a + b = 0 \<or> (a + b) mod 18 \<noteq> 0"
  shows "\<exists>r1 r2. turnRow row a = Some r1 \<and> turnRow r1 b = Some r2 \<and>
           turnRow row (a + b) = Some r2"
proof -
  from assms(2) obtain r1 where a: "turnRow row a = Some r1"
    using turnRow_Some_iff [of row a] by blast
  from assms(3) obtain r2 where b: "turnRow r1 b = Some r2"
    using turnRow_Some_iff [of r1 b] by blast
  from assms(4) obtain r3 where ab: "turnRow row (a + b) = Some r3"
    using turnRow_Some_iff [of row "a + b"] by blast
  from assms(1) a b ab have "r2 = r3"
    by (rule turnRow_compose)
  with a b ab show ?thesis
    by simp
qed

section \<open>The row invariant\<close>

lemma turn_Done_iff:
  "(\<exists>q. turn p a b = Done q) \<longleftrightarrow> (a = 0 \<or> a mod 18 \<noteq> 0) \<and> (b = 0 \<or> b mod 18 \<noteq> 0)"
  using turnRow_Some_iff [of "top_row p" a] turnRow_Some_iff [of "bottom_row p" b]
  by (auto simp: turn_def split: option.splits)

lemma turn_never_throws: "turn p a b \<noteq> LogicError q"
  by (simp add: turn_def split: option.splits)

lemma turn_clean:
  assumes "rows_clean p" "turn p a b = Done q"
  shows "rows_clean q"
  using assms turnRow_clean
  by (auto simp: turn_def rows_clean_def split: option.splits)

lemma swap_halves_clean:
  assumes "t AND m = t" "b AND m = b"
  shows "(t AND NOT h OR (b AND h)) AND m = (t AND NOT h OR (b AND h) :: Row)"
proof -
  have "(t AND NOT h OR (b AND h)) AND m = (t AND m) AND NOT h OR ((b AND m) AND h)"
    by (rule bit_eqI) (auto simp: bit_simps)
  then show ?thesis
    by (simp only: assms)
qed

lemma slice_clean:
  assumes "rows_clean p" "slice_puzzle p = Done q \<or> slice_puzzle p = LogicError q"
  shows "rows_clean q"
  using assms
  by (auto simp: slice_puzzle_def rows_clean_def upper_bits_zero_iff Let_def swap_halves_clean
      split: if_splits)

lemma move_clean:
  assumes "rows_clean p" "move p a b = Done q \<or> move p a b = LogicError q"
  shows "rows_clean q"
proof (cases "turn p a b")
  case (Done turned)
  with assms(1) have "rows_clean turned"
    by (rule turn_clean)
  with assms(2) Done show ?thesis
    using slice_clean [of turned q] by (simp add: move_def)
next
  case (LogicError x)
  then show ?thesis
    by (simp add: turn_never_throws)
next
  case Undefined
  with assms(2) show ?thesis
    by (simp add: move_def)
qed

lemma clone_clean: "rows_clean p \<Longrightarrow> rows_clean (clone p)"
  by (simp add: rows_clean_def clone_def)

lemma default_clean: "rows_clean Puzzle_default"
  by (simp add: rows_clean_def Puzzle_default_def upper_bits_zero_solved)

text \<open>
  Where they return or throw, the operations keep the rows zero above bit 107: the
  default construction, \<open>clone\<close>, \<open>turn\<close> by amounts that are zero or no multiples of
  18, \<open>slice\<close> where \<open>canSlice\<close> holds, and \<open>move\<close>, also when its slice throws.
\<close>

lemma operations_keep_rows_clean:
  assumes "rows_clean p"
  shows "rows_clean Puzzle_default"
    and "rows_clean (clone p)"
    and "(a = 0 \<or> a mod 18 \<noteq> 0) \<and> (b = 0 \<or> b mod 18 \<noteq> 0) \<Longrightarrow>
           \<exists>q. turn p a b = Done q \<and> rows_clean q"
    and "canSlice p \<Longrightarrow> \<exists>q. slice_puzzle p = Done q \<and> rows_clean q"
    and "move p a b = Done q \<or> move p a b = LogicError q \<Longrightarrow> rows_clean q"
proof -
  show "rows_clean Puzzle_default"
    by (rule default_clean)
  show "rows_clean (clone p)"
    using assms by (rule clone_clean)
  show "\<exists>q. turn p a b = Done q \<and> rows_clean q"
    if "(a = 0 \<or> a mod 18 \<noteq> 0) \<and> (b = 0 \<or> b mod 18 \<noteq> 0)"
    using that turn_Done_iff [of p a b] turn_clean [OF assms] by blast
  show "\<exists>q. slice_puzzle p = Done q \<and> rows_clean q" if "canSlice p"
  proof -
    from that obtain q where "slice_puzzle p = Done q"
      by (auto simp: slice_puzzle_def Let_def)
    with assms slice_clean [of p q] show ?thesis
      by blast
  qed
  show "rows_clean q" if "move p a b = Done q \<or> move p a b = LogicError q"
    using assms that by (rule move_clean)
qed

section \<open>The slice\<close>

lemma swap_halves_back:
  "((t AND NOT h OR (b AND h)) AND NOT h) OR ((b AND NOT h OR (t AND h)) AND h) = (t :: Row)"
  by (rule bit_eqI) (auto simp: bit_simps)

lemma swap_halves_and:
  assumes "t AND s = 0" "b AND s = 0"
  shows "(t AND NOT h OR (b AND h)) AND s = (0 :: Row)"
proof -
  have "(t AND NOT h OR (b AND h)) AND s = (t AND s) AND NOT h OR ((b AND s) AND h)"
    by (rule bit_eqI) (auto simp: bit_simps)
  then show ?thesis
    by (simp add: assms)
qed

lemma canSlice_default: "canSlice Puzzle_default"
  by (simp add: canSlice_def Puzzle_default_def SOLVED_TOP_def SOLVED_BOTTOM_def SLICE_MASK_def)

text \<open>
  C2: on a puzzle where \<open>canSlice\<close> holds, \<open>slice\<close> returns normally, \<open>canSlice\<close>
  holds again afterwards, and a second \<open>slice\<close> gives back the rows the puzzle
  started with.
\<close>

theorem slice_involution:
  assumes "canSlice p"
  shows "\<exists>q. slice_puzzle p = Done q \<and> canSlice q \<and> slice_puzzle q = Done p"
proof -
  let ?q = "\<lparr>top_row = top_row p AND NOT HALF_MASK OR (bottom_row p AND HALF_MASK),
             bottom_row = bottom_row p AND NOT HALF_MASK OR (top_row p AND HALF_MASK)\<rparr>"
  have first: "slice_puzzle p = Done ?q"
    using assms by (simp add: slice_puzzle_def)
  have again: "canSlice ?q"
    using assms by (simp add: canSlice_def swap_halves_and)
  have second: "slice_puzzle ?q = Done p"
    using again by (simp add: slice_puzzle_def swap_halves_back)
  from first again second show ?thesis
    by blast
qed

theorem slice_involution_witness:
  "canSlice Puzzle_default \<and>
   (\<exists>q. slice_puzzle Puzzle_default = Done q \<and> canSlice q \<and>
        slice_puzzle q = Done Puzzle_default)"
  using canSlice_default slice_involution [OF canSlice_default] by simp

text \<open>
  C3: \<open>slice\<close> throws the logic error exactly when \<open>canSlice\<close> is false, and the
  puzzle it leaves behind when it throws is the puzzle it was called on.
\<close>

theorem slice_throws_iff:
  "((\<exists>q. slice_puzzle p = LogicError q) \<longleftrightarrow> \<not> canSlice p) \<and>
   (\<forall>q. slice_puzzle p = LogicError q \<longrightarrow> q = p)"
  by (auto simp: slice_puzzle_def Let_def)

theorem slice_throws_iff_witness:
  "\<not> canSlice \<lparr>top_row = SLICE_MASK, bottom_row = SOLVED_BOTTOM\<rparr> \<and>
   slice_puzzle \<lparr>top_row = SLICE_MASK, bottom_row = SOLVED_BOTTOM\<rparr> =
     LogicError \<lparr>top_row = SLICE_MASK, bottom_row = SOLVED_BOTTOM\<rparr>"
proof -
  have blocked: "\<not> canSlice \<lparr>top_row = SLICE_MASK, bottom_row = SOLVED_BOTTOM\<rparr>"
    by (simp add: canSlice_def SLICE_MASK_def)
  from blocked slice_throws_iff [of "\<lparr>top_row = SLICE_MASK, bottom_row = SOLVED_BOTTOM\<rparr>"]
  show ?thesis
    by blast
qed

section \<open>Solved predicates\<close>

lemma cubeShape_default: "cubeShape Puzzle_default"
  by (simp add: cubeShape_def Puzzle_default_def SOLVED_TOP_def SOLVED_BOTTOM_def
      TOP_CUBE_SHAPE_def BOTTOM_CUBE_SHAPE_def)

lemma isRowOrientationSolved_default: "isRowOrientationSolved Puzzle_default"
  by (simp add: isRowOrientationSolved_def Puzzle_default_def SOLVED_TOP_def SOLVED_BOTTOM_def
      ROW_ORIENTATION_MASK_def)

lemma isSolved_iff_default: "isSolved p \<longleftrightarrow> p = Puzzle_default"
  by (cases p) (auto simp: isSolved_def Puzzle_default_def)

text \<open>
  C9: on a puzzle whose rows are zero above bit 107, \<open>isSolvedByMatches\<close> with both
  masks zero is \<open>cubeShape\<close> and \<open>isRowOrientationSolved\<close>, whatever the match rows
  are; with the solved rows as matches and \<open>ROW_MASK\<close> as both masks it is
  \<open>isSolved\<close>.
\<close>

theorem isSolvedByMatches_masks:
  assumes "upper_bits_zero (top_row p)" "upper_bits_zero (bottom_row p)"
  shows "(isSolvedByMatches p topMatch 0 bottomMatch 0 \<longleftrightarrow>
            cubeShape p \<and> isRowOrientationSolved p) \<and>
         (isSolvedByMatches p SOLVED_TOP ROW_MASK SOLVED_BOTTOM ROW_MASK \<longleftrightarrow> isSolved p)"
proof -
  have t: "top_row p AND ROW_MASK = top_row p"
    and b: "bottom_row p AND ROW_MASK = bottom_row p"
    using assms by (simp_all add: upper_bits_zero_iff)
  have st: "SOLVED_TOP AND ROW_MASK = SOLVED_TOP"
    and sb: "SOLVED_BOTTOM AND ROW_MASK = SOLVED_BOTTOM"
    using upper_bits_zero_solved by (simp_all add: upper_bits_zero_iff)
  have zero: "isSolvedByMatches p topMatch 0 bottomMatch 0 \<longleftrightarrow>
      cubeShape p \<and> isRowOrientationSolved p"
    by (simp add: isSolvedByMatches_def)
  have full: "isSolvedByMatches p SOLVED_TOP ROW_MASK SOLVED_BOTTOM ROW_MASK \<longleftrightarrow> isSolved p"
  proof (cases "isSolved p")
    case True
    then have "p = Puzzle_default"
      by (simp add: isSolved_iff_default)
    then show ?thesis
      using True cubeShape_default isRowOrientationSolved_default
      by (simp add: isSolvedByMatches_def isSolved_def)
  next
    case False
    then show ?thesis
      by (auto simp: isSolvedByMatches_def isSolved_def t b st sb)
  qed
  from zero full show ?thesis
    by blast
qed

theorem isSolvedByMatches_masks_witness:
  "upper_bits_zero (top_row Puzzle_default) \<and> upper_bits_zero (bottom_row Puzzle_default) \<and>
   isSolvedByMatches Puzzle_default 5 0 7 0 \<and>
   isSolvedByMatches Puzzle_default SOLVED_TOP ROW_MASK SOLVED_BOTTOM ROW_MASK"
proof -
  have t: "upper_bits_zero (top_row Puzzle_default)"
    and b: "upper_bits_zero (bottom_row Puzzle_default)"
    using upper_bits_zero_solved by (simp_all add: Puzzle_default_def)
  show ?thesis
    using t b isSolvedByMatches_masks [OF t b, of 5 7]
      cubeShape_default isRowOrientationSolved_default
    by (simp add: isSolved_iff_default)
qed

section \<open>The success test of the search\<close>

lemma turn_default_3:
  "turn Puzzle_default 3 0 =
     Done \<lparr>top_row = 57930666568834575501379659404874, bottom_row = SOLVED_BOTTOM\<rparr>"
  by (simp add: turn_def turnRow_def Puzzle_default_def shl_def shr_def wrapPositive_mod
      TOTAL_BITS_def SLOT_SIZE_def ROW_BITS_def SLOTS_PER_ROW_def ROW_MASK_def SOLVED_TOP_def)

text \<open>
  C10: \<open>checkSolved\<close> announces a solution exactly when \<open>cubeShape\<close> and
  \<open>isRowOrientationSolved\<close> hold. Every solved puzzle is announced, and so is the
  solved puzzle with its top row turned by 3 slots, which is not solved.
\<close>

theorem checkSolved_weaker_than_isSolved:
  "(checkSolved p moves e = Exited moves e \<longleftrightarrow> cubeShape p \<and> isRowOrientationSolved p) \<and>
   (isSolved p \<longrightarrow> checkSolved p moves e = Exited moves e) \<and>
   (\<exists>q. turn Puzzle_default 3 0 = Done q \<and> checkSolved q moves e = Exited moves e \<and>
        \<not> isSolved q)"
proof -
  let ?q = "\<lparr>top_row = 57930666568834575501379659404874, bottom_row = SOLVED_BOTTOM\<rparr>"
  have exact: "checkSolved p moves e = Exited moves e \<longleftrightarrow>
      cubeShape p \<and> isRowOrientationSolved p"
    by (simp add: checkSolved_def)
  have solved: "isSolved p \<longrightarrow> checkSolved p moves e = Exited moves e"
    using cubeShape_default isRowOrientationSolved_default
    by (auto simp: checkSolved_def isSolved_iff_default)
  have shape: "cubeShape ?q"
    by (simp add: cubeShape_def SOLVED_BOTTOM_def TOP_CUBE_SHAPE_def BOTTOM_CUBE_SHAPE_def)
  have orientation: "isRowOrientationSolved ?q"
    by (simp add: isRowOrientationSolved_def SOLVED_BOTTOM_def ROW_ORIENTATION_MASK_def)
  have unsolved: "\<not> isSolved ?q"
    by (simp add: isSolved_def SOLVED_TOP_def)
  from shape orientation have "checkSolved ?q moves e = Exited moves e"
    by (simp add: checkSolved_def)
  with unsolved turn_default_3 have
    "\<exists>q. turn Puzzle_default 3 0 = Done q \<and> checkSolved q moves e = Exited moves e \<and>
         \<not> isSolved q"
    by blast
  with exact solved show ?thesis
    by blast
qed

theorem checkSolved_weaker_than_isSolved_witness:
  "isSolved Puzzle_default \<and> checkSolved Puzzle_default [] False = Exited [] False"
  using checkSolved_weaker_than_isSolved [of Puzzle_default "[]" False]
  by (simp add: isSolved_iff_default)

section \<open>formatMoves: runs of no-op entries\<close>

lemma odd_smod_2: "0 \<le> p \<Longrightarrow> p smod 2 = 1 \<longleftrightarrow> odd (nat p)"
  by (auto simp: signed_modulo_int_def sgn_if even_nat_iff odd_iff_mod_2_eq_one)

lemma at_index_pred:
  "0 < i \<Longrightarrow> i \<le> length xs \<Longrightarrow> at_index xs (int i - 1) = Some (xs ! (i - 1))"
  by (auto simp: at_index_def nat_diff_distrib)

text \<open>
  The loop invariant: while \<open>sliceParity\<close> is odd, the entry before \<open>i\<close> exists and
  is a no-op, so that \<open>moves[i - 1]\<close> is in range and is 0 wherever the loop reads it.
\<close>

lemma ignoreZeroes_loop_zero_runs:
  assumes "i \<le> length moves" "0 \<le> par" "odd (nat par) \<longrightarrow> 0 < i \<and> moves ! (i - 1) = 0"
  shows "ignoreZeroes_loop moves i par acc = Some (acc @ zero_runs (nat par) (drop i moves))"
  using assms
proof (induction moves i par acc rule: ignoreZeroes_loop.induct)
  case (1 moves i sliceParity ignoreZeroes)
  show ?case
  proof (cases "i = length moves")
    case True
    then show ?thesis
      using "1.prems" at_index_pred [of i moves]
      by (subst ignoreZeroes_loop.simps) (auto simp: odd_smod_2)
  next
    case False
    with "1.prems" have lt: "i < length moves"
      by simp
    then have cur: "at_index moves (int i) = Some (moves ! i)"
      by (simp add: at_index_def)
    have rest: "drop i moves = moves ! i # drop (Suc i) moves"
      using lt by (simp add: Cons_nth_drop_Suc)
    show ?thesis
    proof (cases "moves ! i = 0")
      case True
      have "ignoreZeroes_loop moves (i + 1) (sliceParity + 1) ignoreZeroes =
          Some (ignoreZeroes @ zero_runs (nat (sliceParity + 1)) (drop (i + 1) moves))"
        using "1.IH"(1) [OF _ False cur True] lt "1.prems" True by simp
      then show ?thesis
        using lt cur True rest "1.prems"
        by (subst ignoreZeroes_loop.simps) (simp add: nat_add_distrib)
    next
      case real: False
      show ?thesis
      proof (cases "sliceParity smod 2 = 1")
        case True
        then have parity: "odd (nat sliceParity)"
          using "1.prems" by (simp add: odd_smod_2)
        then have prev: "at_index moves (int i - 1) = Some 0"
          using "1.prems" lt at_index_pred [of i moves] by simp
        have "ignoreZeroes_loop moves (i + 1) 0 (ignoreZeroes @ [0] @ [moves ! i]) =
          Some ((ignoreZeroes @ [0] @ [moves ! i]) @ zero_runs (nat 0) (drop (i + 1) moves))"
          using "1.IH"(2) [OF _ False cur real True prev] lt by simp
        then show ?thesis
          using lt cur real True prev rest parity
          by (subst ignoreZeroes_loop.simps) simp
      next
        case False
        then have parity: "even (nat sliceParity)"
          using "1.prems" by (simp add: odd_smod_2)
        have "ignoreZeroes_loop moves (i + 1) 0 (ignoreZeroes @ [moves ! i]) =
          Some ((ignoreZeroes @ [moves ! i]) @ zero_runs (nat 0) (drop (i + 1) moves))"
          using "1.IH"(3) [OF _ \<open>i \<noteq> length moves\<close> cur real False] lt by simp
        then show ?thesis
          using lt cur real False rest parity
          by (subst ignoreZeroes_loop.simps) simp
      qed
    qed
  qed
qed

lemma formatMoves_ignoreZeroes_eq: "formatMoves_ignoreZeroes moves = Some (zero_runs 0 moves)"
  using ignoreZeroes_loop_zero_runs [of 0 moves 0 "[]"]
  by (simp add: formatMoves_ignoreZeroes_def)

lemma zero_runs_replicate: "zero_runs k (replicate n 0 @ ms) = zero_runs (k + n) ms"
  by (induction n arbitrary: k) simp_all

lemma zero_runs_append:
  assumes "pre = [] \<or> last pre \<noteq> 0"
  shows "zero_runs k (pre @ ms) =
    (if pre = [] then zero_runs k ms else zero_runs k pre @ zero_runs 0 ms)"
  using assms
proof (induction pre arbitrary: k)
  case Nil
  then show ?case
    by simp
next
  case (Cons a pre)
  show ?case
  proof (cases "pre = []")
    case True
    with Cons.prems show ?thesis
      by simp
  next
    case False
    with Cons.prems have "last pre \<noteq> 0"
      by simp
    with Cons.IH False show ?thesis
      by simp
  qed
qed

text \<open>
  C7, as stated: after a run of no-ops of odd length the prior real move is emitted once
  more. On the moves \<open>(3, 0)\<close>, no-op, \<open>(0, 3)\<close>, encoded 192, 0, 3, the loop emits the
  no-op entry between the two real moves, and the move 192 once, not twice.
\<close>

theorem reemit_prior_real_move_counterexample:
  "formatMoves_ignoreZeroes [192, 0, 3] = Some [192, 0, 3] \<and>
   reemit_prior_real_move None 0 [192, 0, 3] = [192, 192, 3] \<and>
   formatMoves_ignoreZeroes [192, 0, 3] \<noteq> Some (reemit_prior_real_move None 0 [192, 0, 3])"
  by (simp add: formatMoves_ignoreZeroes_eq)

text \<open>
  C7, amended: the loop always leaves with a list. Where a real move \<open>m\<close> follows a whole
  run of \<open>k\<close> no-ops (the entries \<open>pre\<close> before the run are none, or end in a real
  move), one no-op entry is emitted before \<open>m\<close> when \<open>k\<close> is odd and nothing when \<open>k\<close>
  is even; where the list ends on such a run, one no-op entry is emitted at the end when
  \<open>k\<close> is odd. No real move is emitted a second time.
\<close>

theorem ignoreZeroes_collapses_runs:
  assumes "m \<noteq> 0" "pre = [] \<or> last pre \<noteq> 0"
  shows "\<exists>front rear.
           formatMoves_ignoreZeroes pre = Some front \<and>
           formatMoves_ignoreZeroes post = Some rear \<and>
           formatMoves_ignoreZeroes (pre @ replicate k 0 @ m # post) =
             Some (front @ (if odd k then [0] else []) @ m # rear) \<and>
           formatMoves_ignoreZeroes (pre @ replicate k 0) =
             Some (front @ (if odd k then [0] else []))"
proof -
  have middle: "zero_runs 0 (pre @ replicate k 0 @ m # post) =
      zero_runs 0 pre @ (if odd k then [0] else []) @ m # zero_runs 0 post"
    using assms zero_runs_append [of pre 0 "replicate k 0 @ m # post"]
      zero_runs_replicate [of 0 k "m # post"]
    by auto
  have ending: "zero_runs 0 (pre @ replicate k 0) =
      zero_runs 0 pre @ (if odd k then [0] else [])"
    using assms zero_runs_append [of pre 0 "replicate k 0"] zero_runs_replicate [of 0 k "[]"]
    by auto
  show ?thesis
    by (simp only: formatMoves_ignoreZeroes_eq middle ending) simp
qed

theorem ignoreZeroes_collapses_runs_witness:
  "(3::int) \<noteq> 0 \<and> ([192::int] = [] \<or> last [192::int] \<noteq> 0) \<and>
   formatMoves_ignoreZeroes ([192] @ replicate 1 0 @ 3 # []) = Some [192, 0, 3] \<and>
   formatMoves_ignoreZeroes ([192] @ replicate 1 0) = Some [192, 0]"
  using ignoreZeroes_collapses_runs [of 3 "[192]" "[]" 1]
  by (simp add: formatMoves_ignoreZeroes_eq)

section \<open>The search never slices a blocked puzzle\<close>

lemma turnRow_MOVES: "a \<in> set MOVES \<Longrightarrow> \<exists>r. turnRow row a = Some r"
  by (auto simp: MOVES_def turnRow_zero turnRow_defined)

lemma turn_top_MOVES:
  assumes "a \<in> set MOVES"
  shows "\<exists>t. turn (clone p) a 0 = Done \<lparr>top_row = t, bottom_row = bottom_row p\<rparr>"
  using turnRow_MOVES [OF assms, of "top_row p"]
  by (auto simp: turn_def clone_def turnRow_zero)

lemma turn_bottom_MOVES:
  assumes "b \<in> set MOVES"
  shows "\<exists>r. turn (clone p) 0 b = Done \<lparr>top_row = top_row p, bottom_row = r\<rparr>"
  using turnRow_MOVES [OF assms, of "bottom_row p"]
  by (auto simp: turn_def clone_def turnRow_zero)

text \<open>
  A bottom turn leaves the top row as it is, so the two checks that precede a slice
  add up to \<open>canSlice\<close>.
\<close>

lemma slice_after_checks:
  assumes "canSliceTop p" "turn (clone p) 0 b = Done q" "canSliceBottom q"
  shows "canSlice q"
  using assms
  by (auto simp: turn_def clone_def turnRow_zero canSlice_def canSliceTop_def canSliceBottom_def
      split: option.splits)

lemma for_each_harmless:
  "(\<And>m. m \<in> set ms \<Longrightarrow> harmless (body m)) \<Longrightarrow> harmless (for_each ms body)"
proof (induction ms)
  case Nil
  then show ?case
    by (simp add: harmless_def)
next
  case (Cons m ms)
  then have "harmless (body m)" "harmless (for_each ms body)"
    by simp_all
  then show ?case
    by (cases "body m") (simp_all add: harmless_def)
qed

lemma checkSolved_cases: "checkSolved p ms e = Returned \<or> checkSolved p ms e = Exited ms e"
  by (simp add: checkSolved_def)

text \<open>The body of the inner loop, with \<open>rec\<close> for the recursive call.\<close>

lemma bottom_branch_harmless:
  assumes top: "canSliceTop topNext" and b: "b \<in> set MOVES"
    and rec: "\<And>sliced nextMoves. harmless (rec sliced nextMoves)"
  shows "harmless
     (case turn (clone topNext) 0 b of
        Undefined \<Rightarrow> UndefinedRun
      | LogicError q \<Rightarrow> Crashed
      | Done bottomNext \<Rightarrow>
          if \<not> canSliceBottom bottomNext then Returned
          else
            let nextMoves = moves @ [encodeMove a b] in
            (case checkSolved bottomNext nextMoves False of
               Returned \<Rightarrow>
                 (case slice_puzzle bottomNext of
                    Undefined \<Rightarrow> UndefinedRun
                  | LogicError q \<Rightarrow> Crashed
                  | Done sliced \<Rightarrow>
                      (case checkSolved sliced nextMoves True of
                         Returned \<Rightarrow> rec sliced nextMoves
                       | Exited ms e \<Rightarrow> Exited ms e
                       | Crashed \<Rightarrow> Crashed
                       | UndefinedRun \<Rightarrow> UndefinedRun))
             | Exited ms e \<Rightarrow> Exited ms e
             | Crashed \<Rightarrow> Crashed
             | UndefinedRun \<Rightarrow> UndefinedRun))"
proof -
  from turn_bottom_MOVES [OF b, of topNext] obtain r where
    t: "turn (clone topNext) 0 b = Done \<lparr>top_row = top_row topNext, bottom_row = r\<rparr>"
    by blast
  let ?q = "\<lparr>top_row = top_row topNext, bottom_row = r\<rparr>"
  let ?ms = "moves @ [encodeMove a b]"
  show ?thesis
  proof (cases "canSliceBottom ?q")
    case False
    with t show ?thesis
      by (simp add: harmless_def)
  next
    case True
    with top t have "canSlice ?q"
      by (rule slice_after_checks)
    then obtain s where s: "slice_puzzle ?q = Done s"
      by (auto simp: slice_puzzle_def Let_def)
    consider (found) "checkSolved ?q ?ms False = Exited ?ms False"
      | (found_sliced) "checkSolved ?q ?ms False = Returned"
          "checkSolved s ?ms True = Exited ?ms True"
      | (deeper) "checkSolved ?q ?ms False = Returned" "checkSolved s ?ms True = Returned"
      using checkSolved_cases [of ?q ?ms False] checkSolved_cases [of s ?ms True] by blast
    then show ?thesis
    proof cases
      case found
      with t True show ?thesis
        by (simp add: harmless_def)
    next
      case found_sliced
      with t True s show ?thesis
        by (simp add: harmless_def)
    next
      case deeper
      with t True s rec [of s ?ms] show ?thesis
        by simp
    qed
  qed
qed

text \<open>The body of the outer loop.\<close>

lemma top_branch_harmless:
  assumes a: "a \<in> set MOVES"
    and rec: "\<And>sliced nextMoves. harmless (rec sliced nextMoves)"
  shows "harmless
     (case turn (clone puzzle) a 0 of
        Undefined \<Rightarrow> UndefinedRun
      | LogicError q \<Rightarrow> Crashed
      | Done topNext \<Rightarrow>
          if \<not> canSliceTop topNext then Returned
          else
            for_each MOVES (\<lambda>b.
              case turn (clone topNext) 0 b of
                Undefined \<Rightarrow> UndefinedRun
              | LogicError q \<Rightarrow> Crashed
              | Done bottomNext \<Rightarrow>
                  if \<not> canSliceBottom bottomNext then Returned
                  else
                    let nextMoves = moves @ [encodeMove a b] in
                    (case checkSolved bottomNext nextMoves False of
                       Returned \<Rightarrow>
                         (case slice_puzzle bottomNext of
                            Undefined \<Rightarrow> UndefinedRun
                          | LogicError q \<Rightarrow> Crashed
                          | Done sliced \<Rightarrow>
                              (case checkSolved sliced nextMoves True of
                                 Returned \<Rightarrow> rec sliced nextMoves
                               | Exited ms e \<Rightarrow> Exited ms e
                               | Crashed \<Rightarrow> Crashed
                               | UndefinedRun \<Rightarrow> UndefinedRun))
                     | Exited ms e \<Rightarrow> Exited ms e
                     | Crashed \<Rightarrow> Crashed
                     | UndefinedRun \<Rightarrow> UndefinedRun)))"
proof -
  from turn_top_MOVES [OF a, of puzzle] obtain t where
    t: "turn (clone puzzle) a 0 = Done \<lparr>top_row = t, bottom_row = bottom_row puzzle\<rparr>"
    by blast
  show ?thesis
  proof (cases "canSliceTop \<lparr>top_row = t, bottom_row = bottom_row puzzle\<rparr>")
    case False
    with t show ?thesis
      by (simp add: harmless_def)
  next
    case True
    show ?thesis
      unfolding t outcome.case
      by (simp only: True not_True_eq_False if_False)
        (rule for_each_harmless, rule bottom_branch_harmless [OF True _ rec])
  qed
qed

lemma solve_harmless: "harmless (solve puzzle moves depth)"
proof (induction "nat (9 - depth)" arbitrary: puzzle moves depth)
  case 0
  then have "depth > 8"
    by simp
  then show ?case
    by (subst solve.simps) (simp add: harmless_def)
next
  case (Suc n)
  then have shallow: "\<not> depth > 8" and "n = nat (9 - (depth + 1))"
    by simp_all
  with Suc.hyps(1) have rec: "\<And>sliced nextMoves. harmless (solve sliced nextMoves (depth + 1))"
    by blast
  show ?case
    by (subst solve.simps, simp only: shallow if_False)
      (rule for_each_harmless, rule top_branch_harmless [OF _ rec])
qed

lemma solve_task_harmless:
  assumes "canSliceTop topNext"
  shows "harmless (solve_task topNext a baseMoves)"
  unfolding solve_task_def
  by (rule for_each_harmless, rule bottom_branch_harmless [OF assms _ solve_harmless])

lemma start_tasks_harmless:
  assumes "set todo \<subseteq> set MOVES" "r \<in> set (start_tasks start baseMoves todo)"
  shows "harmless r"
  using assms
proof (induction todo)
  case Nil
  then show ?case
    by simp
next
  case (Cons a todo)
  then have a: "a \<in> set MOVES"
    by simp
  from turn_top_MOVES [OF a, of start] obtain t where
    t: "turn (clone start) a 0 = Done \<lparr>top_row = t, bottom_row = bottom_row start\<rparr>"
    by blast
  show ?case
  proof (cases "canSliceTop \<lparr>top_row = t, bottom_row = bottom_row start\<rparr>")
    case False
    with Cons t show ?thesis
      by simp
  next
    case True
    with Cons t solve_task_harmless [OF True, of a baseMoves] show ?thesis
      by auto
  qed
qed

text \<open>
  C4: a puzzle that passed \<open>canSliceTop\<close>, was then turned at the bottom only and passed
  \<open>canSliceBottom\<close> satisfies \<open>canSlice\<close>; and no run of \<open>solve\<close>, and no task of
  \<open>solveMultithread\<close>, ends in the logic error of \<open>slice\<close> (or in an undefined shift),
  for any puzzle, move list and depth.
\<close>

theorem search_never_slices_blocked:
  "(canSliceTop topNext \<and> turn (clone topNext) 0 b = Done bottomNext \<and>
      canSliceBottom bottomNext \<longrightarrow> canSlice bottomNext) \<and>
   solve puzzle moves depth \<noteq> Crashed \<and> solve puzzle moves depth \<noteq> UndefinedRun \<and>
   Crashed \<notin> set (solveMultithread start baseMoves) \<and>
   UndefinedRun \<notin> set (solveMultithread start baseMoves)"
proof -
  have checks: "canSliceTop topNext \<and> turn (clone topNext) 0 b = Done bottomNext \<and>
      canSliceBottom bottomNext \<longrightarrow> canSlice bottomNext"
    using slice_after_checks [of topNext b bottomNext] by blast
  have single: "solve puzzle moves depth \<noteq> Crashed \<and> solve puzzle moves depth \<noteq> UndefinedRun"
    using solve_harmless [of puzzle moves depth] by (simp add: harmless_def)
  have tasks: "Crashed \<notin> set (solveMultithread start baseMoves) \<and>
      UndefinedRun \<notin> set (solveMultithread start baseMoves)"
    using start_tasks_harmless [of MOVES _ start baseMoves]
    by (auto simp: harmless_def solveMultithread_def)
  from checks single tasks show ?thesis
    by blast
qed

theorem search_never_slices_blocked_witness:
  "canSliceTop Puzzle_default \<and>
   turn (clone Puzzle_default) 0 3 =
     Done \<lparr>top_row = SOLVED_TOP, bottom_row = 205982827539178901894988840217209\<rparr> \<and>
   canSliceBottom \<lparr>top_row = SOLVED_TOP, bottom_row = 205982827539178901894988840217209\<rparr> \<and>
   canSlice \<lparr>top_row = SOLVED_TOP, bottom_row = 205982827539178901894988840217209\<rparr>"
proof -
  let ?q = "\<lparr>top_row = SOLVED_TOP, bottom_row = 205982827539178901894988840217209\<rparr>"
  have top: "canSliceTop Puzzle_default"
    by (simp add: canSliceTop_def Puzzle_default_def SOLVED_TOP_def SLICE_MASK_def)
  have turned: "turn (clone Puzzle_default) 0 3 = Done ?q"
    by (simp add: turn_def clone_def turnRow_zero turnRow_defined Puzzle_default_def
        SOLVED_BOTTOM_def ROW_MASK_def ROW_BITS_def SLOTS_PER_ROW_def SLOT_SIZE_def)
  have bottom: "canSliceBottom ?q"
    by (simp add: canSliceBottom_def SLICE_MASK_def)
  from top turned bottom
    search_never_slices_blocked [of Puzzle_default 3 ?q Puzzle_default "[]" 9 Puzzle_default "[]"]
  show ?thesis
    by blast
qed

section \<open>The row invariant, for every turn amount\<close>

lemma turnRow_any_agrees:
  assumes "turnRow row slots = Some r"
  shows "turnRow_any oob row slots = r"
  using assms
  by (auto simp: turnRow_def turnRow_any_def shl_any_def shr_any_def Let_def
      split: if_splits option.splits)

lemma turn_any_agrees:
  assumes "turn p a b = Done q"
  shows "turn_any oob p a b = q"
  using assms
  by (auto simp: turn_def turn_any_def turnRow_any_agrees split: option.splits)

text \<open>
  \<open>turnRow\<close> masks with \<open>ROW_MASK\<close> after its shifts, so the turned row is zero above
  bit 107 whatever the shifts returned.
\<close>

lemma turnRow_any_clean:
  assumes "upper_bits_zero row"
  shows "upper_bits_zero (turnRow_any oob row slots)"
  using assms
  by (simp add: turnRow_any_def Let_def upper_bits_zero_iff and.assoc)

lemma turn_any_clean:
  assumes "rows_clean p"
  shows "rows_clean (turn_any oob p a b)"
  using assms by (simp add: rows_clean_def turn_any_def turnRow_any_clean)

lemma turn_any_default_18:
  "turn_any (\<lambda>x n. x) Puzzle_default 18 0 =
     \<lparr>top_row = 6420022120736331877152056719326, bottom_row = SOLVED_BOTTOM\<rparr>"
  by (simp add: turn_any_def turnRow_any_def shl_any_def shr_any_def shl_def shr_def
      wrapPositive_mod Puzzle_default_def SOLVED_TOP_def TOTAL_BITS_def ROW_BITS_def
      SLOTS_PER_ROW_def SLOT_SIZE_def ROW_MASK_def)

text \<open>
  C5: on a puzzle whose rows are zero above bit 107, every operation leaves them so:
  the default construction, \<open>clone\<close>, \<open>turn\<close> by any two integers (for every value
  \<open>oob\<close> that a shift with an out-of-range count may return; where \<open>turn\<close> is defined
  it is this turn), \<open>slice\<close> where \<open>canSlice\<close> holds, and \<open>move\<close>, whether its slice
  returns or throws.
\<close>

theorem rows_clean_invariant:
  assumes "rows_clean p"
  shows "rows_clean Puzzle_default \<and>
         rows_clean (clone p) \<and>
         rows_clean (turn_any oob p a b) \<and>
         (\<forall>q. turn p a b = Done q \<longrightarrow> q = turn_any oob p a b) \<and>
         (canSlice p \<longrightarrow> (\<exists>q. slice_puzzle p = Done q \<and> rows_clean q)) \<and>
         (\<forall>q. move_any oob p a b = Done q \<or> move_any oob p a b = LogicError q \<longrightarrow>
              rows_clean q)"
proof -
  have turned: "rows_clean (turn_any oob p a b)"
    using assms by (rule turn_any_clean)
  have agree: "\<forall>q. turn p a b = Done q \<longrightarrow> q = turn_any oob p a b"
    using turn_any_agrees [of p a b _ oob] by blast
  have sliced: "canSlice p \<longrightarrow> (\<exists>q. slice_puzzle p = Done q \<and> rows_clean q)"
    using operations_keep_rows_clean(4) [OF assms] by blast
  have moved: "\<forall>q. move_any oob p a b = Done q \<or> move_any oob p a b = LogicError q \<longrightarrow>
      rows_clean q"
    using slice_clean [OF turned] by (simp add: move_any_def)
  from default_clean clone_clean [OF assms] turned agree sliced moved show ?thesis
    by blast
qed

text \<open>
  The witness turns the default puzzle by 18 slots, with the out-of-range shift
  returning its operand, and by 3 slots, where \<open>turn\<close> is defined.
\<close>

theorem rows_clean_invariant_witness:
  "rows_clean Puzzle_default \<and>
   turn_any (\<lambda>x n. x) Puzzle_default 18 0 =
     \<lparr>top_row = 6420022120736331877152056719326, bottom_row = SOLVED_BOTTOM\<rparr> \<and>
   rows_clean \<lparr>top_row = 6420022120736331877152056719326, bottom_row = SOLVED_BOTTOM\<rparr> \<and>
   turn Puzzle_default 3 0 = Done (turn_any (\<lambda>x n. x) Puzzle_default 3 0) \<and>
   canSlice Puzzle_default \<and>
   (\<exists>q. slice_puzzle Puzzle_default = Done q \<and> rows_clean q) \<and>
   (\<exists>q. move_any (\<lambda>x n. x) Puzzle_default 3 0 = Done q \<and> rows_clean q)"
proof -
  let ?oob = "\<lambda>(x::Row) (n::int). x"
  let ?q = "\<lparr>top_row = 57930666568834575501379659404874, bottom_row = SOLVED_BOTTOM\<rparr>"
  have "canSlice ?q"
    by (simp add: canSlice_def SOLVED_BOTTOM_def SLICE_MASK_def)
  then obtain s where s: "slice_puzzle ?q = Done s"
    by (auto simp: slice_puzzle_def Let_def)
  have three: "turn_any ?oob Puzzle_default 3 0 = ?q"
    using turn_default_3 by (rule turn_any_agrees)
  with s have moved: "move_any ?oob Puzzle_default 3 0 = Done s"
    by (simp add: move_any_def)
  show ?thesis
    using rows_clean_invariant [OF default_clean, of ?oob 18 0]
      rows_clean_invariant [OF default_clean, of ?oob 3 0]
      turn_any_default_18 turn_default_3 three canSlice_default moved
    by auto
qed

end
